theory Spec2Isabelle
  imports Main "HOL-Library.Word"
begin

section \<open>Data model of threads.h and threads.c\<close>

text \<open>
  \<^verbatim>\<open>typedef struct { uint min, max, thr_num; void *data; } spawn_data;\<close>

  The type \<^verbatim>\<open>uint\<close> is declared in ifftw.h, which is not among the sources: it is C's
  \<^verbatim>\<open>unsigned int\<close>, an unsigned machine integer whose arithmetic wraps around. Its width
  is left open: the record takes the integer type as the parameter \<open>'u\<close>, the operations
  below use it at \<open>'w word\<close> for any width \<open>'w\<close>, and concrete evaluations are made at
  32 bits. The fields \<^verbatim>\<open>min\<close> and \<^verbatim>\<open>max\<close> carry the suffix \<open>_d\<close> since HOL has constants
  of these names. The pointer \<^verbatim>\<open>data\<close> is an opaque value of type \<open>'d\<close>.
\<close>

record ('u, 'd) spawn_data =
  min_d :: 'u
  max_d :: 'u
  thr_num :: 'u
  data :: 'd

text \<open>
  The failures of the dispatcher: a failed assertion \<^verbatim>\<open>A(...)\<close> and an unsigned division
  whose divisor is zero (undefined behaviour in C, a trap on the usual hardware).
\<close>

datatype error = Assertion_Failed | Division_By_Zero

text \<open>
  What the dispatcher does, in program order: \<^verbatim>\<open>THREAD_ON\<close>, \<^verbatim>\<open>THREAD_OFF\<close>, a call
  \<^verbatim>\<open>fftw_thr_spawn(&tid[i], proc, &d[i])\<close>, a call \<^verbatim>\<open>proc(&d)\<close> made by the dispatcher
  itself, and \<^verbatim>\<open>fftw_thr_wait(tid[i])\<close>.
\<close>

datatype ('u, 'd) event =
    Thread_On
  | Thread_Off
  | Thr_Spawn 'u "('u, 'd) spawn_data"
  | Proc "('u, 'd) spawn_data"
  | Thr_Wait 'u

text \<open>
  The build configuration: whether \<^verbatim>\<open>HAVE_THREADS\<close> is defined, and which of the
  \<^verbatim>\<open>USING_*_THREADS\<close> glue sections the \<^verbatim>\<open>#if/#elif\<close> chain selects (none when no such
  symbol is defined). The selection is made once, when the library is built. A
  configuration with \<^verbatim>\<open>HAVE_THREADS\<close> and no glue section is rejected by the \<^verbatim>\<open>#error\<close> of
  line 267; the definitions below give it the explicit variant, as the remaining
  conditionals would.
\<close>

datatype backend = Solaris | BeOS | MacOS | Win32 | Mach | OpenMP | SGIMP | Posix

record build =
  have_threads :: bool
  threads_api :: "backend option"

definition using_compiler_threads :: "build \<Rightarrow> bool" where
  "using_compiler_threads b = (threads_api b = Some OpenMP \<or> threads_api b = Some SGIMP)"

definition using_posix_threads :: "build \<Rightarrow> bool" where
  "using_posix_threads b = (threads_api b = Some Posix)"

section \<open>The dispatcher \<^verbatim>\<open>X(spawn_loop)\<close>\<close>

text \<open>
  Modelled from the spec: the macro \<^verbatim>\<open>A\<close> is defined in ifftw.h, which is not among the
  sources. The specification calls it a defensive assertion that treats a violated
  condition as a caller bug, not as a recoverable error: a false condition ends the call
  with \<open>Assertion_Failed\<close>.
\<close>

definition A :: "bool \<Rightarrow> error + unit" where
  "A ex = (if ex then Inr () else Inl Assertion_Failed)"

text \<open>Unsigned division as C has it: the quotient, and no result for a zero divisor.\<close>

definition udiv :: "'w::len word \<Rightarrow> 'w word \<Rightarrow> error + 'w word" where
  "udiv a b = (if b = 0 then Inl Division_By_Zero else Inr (a div b))"

text \<open>
  Lines 294 and 295, the choice of the block size and of the number of threads:
  \<^verbatim>\<open>block_size = (loopmax + nthr - 1) / nthr;\<close>
  \<^verbatim>\<open>nthr = (loopmax + block_size - 1) / block_size;\<close>
  The result is the pair of \<^verbatim>\<open>block_size\<close> and the new \<^verbatim>\<open>nthr\<close>.
\<close>

definition partitioner :: "'w::len word \<Rightarrow> 'w word \<Rightarrow> error + ('w word \<times> 'w word)" where
  "partitioner loopmax nthr =
     (case udiv (loopmax + nthr - 1) nthr of
        Inl e \<Rightarrow> Inl e
      | Inr block_size \<Rightarrow>
          (case udiv (loopmax + block_size - 1) block_size of
             Inl e \<Rightarrow> Inl e
           | Inr nthr' \<Rightarrow> Inr (block_size, nthr')))"

text \<open>
  The record one iteration of the compiler-managed variant fills (lines 325 to 329):
  the block of index \<open>i\<close>, its end clamped to \<^verbatim>\<open>loopmax\<close>.
\<close>

definition clamped_block ::
  "'w::len word \<Rightarrow> 'w word \<Rightarrow> 'w word \<Rightarrow> 'd \<Rightarrow> ('w word, 'd) spawn_data" where
  "clamped_block i block_size loopmax dat =
     (let mn = i * block_size;
          mx = mn + block_size;
          mx' = (if mx > loopmax then loopmax else mx)
      in \<lparr>min_d = mn, max_d = mx', thr_num = i, data = dat\<rparr>)"

text \<open>
  The record one iteration of the spawning loop fills (lines 342 to 344): the block of
  index \<open>i\<close>, its end not clamped.
\<close>

definition spawn_block :: "'w::len word \<Rightarrow> 'w word \<Rightarrow> 'd \<Rightarrow> ('w word, 'd) spawn_data" where
  "spawn_block i block_size dat =
     \<lparr>min_d = i * block_size, max_d = i * block_size + block_size, thr_num = i, data = dat\<rparr>"

text \<open>The record filled after the spawning loop (lines 348 to 351): it ends at \<^verbatim>\<open>loopmax\<close>.\<close>

definition final_block ::
  "'w::len word \<Rightarrow> 'w word \<Rightarrow> 'w word \<Rightarrow> 'd \<Rightarrow> ('w word, 'd) spawn_data" where
  "final_block i block_size loopmax dat =
     \<lparr>min_d = i * block_size, max_d = loopmax, thr_num = i, data = dat\<rparr>"

text \<open>
  The loop of the compiler-managed variant (lines 324 to 331), from the index \<open>i\<close> on.
  The iterations are listed in index order; the parallel region may run them in any order.
\<close>

function compiler_loop ::
  "'w::len word \<Rightarrow> 'w word \<Rightarrow> 'w word \<Rightarrow> 'w word \<Rightarrow> 'd \<Rightarrow> ('w word, 'd) event list" where
  "compiler_loop i nthr block_size loopmax dat =
     (if i < nthr then
        Proc (clamped_block i block_size loopmax dat)
          # compiler_loop (i + 1) nthr block_size loopmax dat
      else [])"
  by pat_completeness auto
termination
proof (relation "measure (\<lambda>(i, nthr, _). unat nthr - unat i)")
  fix i nthr block_size loopmax :: "'w::len word" and dat :: 'd
  assume "i < nthr"
  then have lt: "unat i < unat nthr" by (simp add: word_less_nat_alt)
  have "unat nthr < 2 ^ LENGTH('w)" by (rule unsigned_less)
  with lt have "unat i + unat (1::'w word) < 2 ^ LENGTH('w)" unfolding unat_1 by linarith
  then have "unat (i + 1) = Suc (unat i)" by (simp add: unat_add_lem [THEN iffD1])
  with lt show "((i + 1, nthr, block_size, loopmax, dat), (i, nthr, block_size, loopmax, dat))
      \<in> measure (\<lambda>(i, nthr, _). unat nthr - unat i)"
    by simp
qed simp

text \<open>
  The spawning loop of the explicit variant (lines 341 to 347) from the index \<open>i\<close> on,
  followed by the statements after it (lines 348 to 352), which use the value of \<open>i\<close> the
  loop ends with: the last block is run by the dispatcher itself. Here \<open>nthr\<close> is the
  value after \<^verbatim>\<open>--nthr\<close>, which stands in the size argument of \<^verbatim>\<open>STACK_MALLOC\<close> (line 339);
  that macro is defined in ifftw.h, not among the sources, and is taken to evaluate its
  argument once. The two arrays it allocates hold one record and one thread identifier
  per index, so no two threads share a record.
\<close>

function explicit_loop ::
  "'w::len word \<Rightarrow> 'w word \<Rightarrow> 'w word \<Rightarrow> 'w word \<Rightarrow> 'd \<Rightarrow> ('w word, 'd) event list" where
  "explicit_loop i nthr block_size loopmax dat =
     (if i < nthr then
        Thr_Spawn i (spawn_block i block_size dat)
          # explicit_loop (i + 1) nthr block_size loopmax dat
      else [Proc (final_block i block_size loopmax dat)])"
  by pat_completeness auto
termination
proof (relation "measure (\<lambda>(i, nthr, _). unat nthr - unat i)")
  fix i nthr block_size loopmax :: "'w::len word" and dat :: 'd
  assume "i < nthr"
  then have lt: "unat i < unat nthr" by (simp add: word_less_nat_alt)
  have "unat nthr < 2 ^ LENGTH('w)" by (rule unsigned_less)
  with lt have "unat i + unat (1::'w word) < 2 ^ LENGTH('w)" unfolding unat_1 by linarith
  then have "unat (i + 1) = Suc (unat i)" by (simp add: unat_add_lem [THEN iffD1])
  with lt show "((i + 1, nthr, block_size, loopmax, dat), (i, nthr, block_size, loopmax, dat))
      \<in> measure (\<lambda>(i, nthr, _). unat nthr - unat i)"
    by simp
qed simp

text \<open>The joining loop (lines 354 and 355).\<close>

function wait_loop :: "'w::len word \<Rightarrow> 'w word \<Rightarrow> ('w word, 'd) event list" where
  "wait_loop i nthr = (if i < nthr then Thr_Wait i # wait_loop (i + 1) nthr else [])"
  by pat_completeness auto
termination
proof (relation "measure (\<lambda>(i, nthr). unat nthr - unat i)")
  fix i nthr :: "'w::len word"
  assume "i < nthr"
  then have lt: "unat i < unat nthr" by (simp add: word_less_nat_alt)
  have "unat nthr < 2 ^ LENGTH('w)" by (rule unsigned_less)
  with lt have "unat i + unat (1::'w word) < 2 ^ LENGTH('w)" unfolding unat_1 by linarith
  then have "unat (i + 1) = Suc (unat i)" by (simp add: unat_add_lem [THEN iffD1])
  with lt show "((i + 1, nthr), (i, nthr)) \<in> measure (\<lambda>(i, nthr). unat nthr - unat i)"
    by simp
qed simp

text \<open>
  The loop equations unfold only where asked: each states a loop in terms of itself.
\<close>

declare compiler_loop.simps [simp del] explicit_loop.simps [simp del] wait_loop.simps [simp del]

text \<open>
  The body of the threaded dispatcher (lines 284 to 363): the two assertions, the
  partition, the synchronous branch for \<^verbatim>\<open>nthr <= 1\<close>, and otherwise the loop of the
  selected variant between \<^verbatim>\<open>THREAD_ON\<close> and \<^verbatim>\<open>THREAD_OFF\<close>.
\<close>

definition spawn_loop_threads ::
  "bool \<Rightarrow> 'w::len word \<Rightarrow> 'w word \<Rightarrow> 'd \<Rightarrow> error + ('w word, 'd) event list" where
  "spawn_loop_threads compiler_threads loopmax nthr dat =
     (case A (loopmax > 0) of
        Inl e \<Rightarrow> Inl e
      | Inr _ \<Rightarrow>
     (case A (nthr > 0) of
        Inl e \<Rightarrow> Inl e
      | Inr _ \<Rightarrow>
     (case partitioner loopmax nthr of
        Inl e \<Rightarrow> Inl e
      | Inr (block_size, nthr') \<Rightarrow>
          if nthr' \<le> 1 then
            Inr [Proc \<lparr>min_d = 0, max_d = loopmax, thr_num = 0, data = dat\<rparr>]
          else if compiler_threads then
            Inr (Thread_On # compiler_loop 0 nthr' block_size loopmax dat @ [Thread_Off])
          else
            Inr (Thread_On # explicit_loop 0 (nthr' - 1) block_size loopmax dat
                   @ wait_loop 0 (nthr' - 1) @ [Thread_Off]))))"

text \<open>The dispatcher without \<^verbatim>\<open>HAVE_THREADS\<close> (lines 367 to 376): \<^verbatim>\<open>nthr\<close> is unused.\<close>

definition spawn_loop_nothreads ::
  "'w::len word \<Rightarrow> 'w word \<Rightarrow> 'd \<Rightarrow> error + ('w word, 'd) event list" where
  "spawn_loop_nothreads loopmax nthr dat =
     Inr [Proc \<lparr>min_d = 0, max_d = loopmax, thr_num = 0, data = dat\<rparr>]"

text \<open>\<^verbatim>\<open>X(spawn_loop)\<close> as the build configuration compiles it.\<close>

definition spawn_loop ::
  "build \<Rightarrow> 'w::len word \<Rightarrow> 'w word \<Rightarrow> 'd \<Rightarrow> error + ('w word, 'd) event list" where
  "spawn_loop b loopmax nthr dat =
     (if have_threads b then spawn_loop_threads (using_compiler_threads b) loopmax nthr dat
      else spawn_loop_nothreads loopmax nthr dat)"

section \<open>The initializer \<^verbatim>\<open>X(threads_init)\<close>\<close>

text \<open>
  The results of the calls to the POSIX threads library that \<^verbatim>\<open>X(threads_init)\<close> makes:
  the error code of each call, whether the detach state read is
  \<^verbatim>\<open>PTHREAD_CREATE_JOINABLE\<close> and whether the scope read is \<^verbatim>\<open>PTHREAD_SCOPE_SYSTEM\<close>.
\<close>

record pthread_env =
  attr_init :: int
  attr_getdetachstate :: int
  detachstate_joinable :: bool
  attr_setdetachstate :: int
  attr_getscope :: int
  scope_system :: bool
  attr_setscope :: int
  attr_destroy :: int

text \<open>
  Lines 409 to 444, compiled under \<^verbatim>\<open>USING_POSIX_THREADS\<close>: \<open>Some err\<close> is an early
  \<^verbatim>\<open>return err\<close>, \<open>None\<close> falls through to the rest of the function. The attributes are
  destroyed only when neither was changed.
\<close>

definition posix_attributes :: "pthread_env \<Rightarrow> int option" where
  "posix_attributes e =
     (if attr_init e \<noteq> 0 then Some (attr_init e)
      else if attr_getdetachstate e \<noteq> 0 then Some (attr_getdetachstate e)
      else if \<not> detachstate_joinable e \<and> attr_setdetachstate e \<noteq> 0
        then Some (attr_setdetachstate e)
      else if attr_getscope e \<noteq> 0 then Some (attr_getscope e)
      else if \<not> scope_system e \<and> attr_setscope e \<noteq> 0 then Some (attr_setscope e)
      else if detachstate_joinable e \<and> scope_system e \<and> attr_destroy e \<noteq> 0
        then Some (attr_destroy e)
      else None)"

text \<open>
  The status \<^verbatim>\<open>X(threads_init)\<close> returns (lines 407 to 467). The assignments to the
  allocation hooks and to the solver registration hooks do not change the status.
\<close>

definition threads_init :: "build \<Rightarrow> pthread_env \<Rightarrow> int" where
  "threads_init b e =
     (case (if using_posix_threads b then posix_attributes e else None) of
        Some err \<Rightarrow> err
      | None \<Rightarrow> if have_threads b then 0 else - 31416)"

section \<open>Observations on the events of one call\<close>

text \<open>The range a record describes, as (min, max, thr_num).\<close>

definition range_of :: "('u, 'd) spawn_data \<Rightarrow> 'u \<times> 'u \<times> 'u" where
  "range_of d = (min_d d, max_d d, thr_num d)"

text \<open>The ranges handed to the work function, in program order.\<close>

fun ranges_of :: "('u, 'd) event list \<Rightarrow> ('u \<times> 'u \<times> 'u) list" where
  "ranges_of [] = []"
| "ranges_of (Thr_Spawn t d # es) = range_of d # ranges_of es"
| "ranges_of (Proc d # es) = range_of d # ranges_of es"
| "ranges_of (e # es) = ranges_of es"

text \<open>The ranges given to spawned threads, and the ranges the dispatcher runs itself.\<close>

fun spawned :: "('u, 'd) event list \<Rightarrow> ('u \<times> 'u \<times> 'u) list" where
  "spawned [] = []"
| "spawned (Thr_Spawn t d # es) = range_of d # spawned es"
| "spawned (e # es) = spawned es"

fun called :: "('u, 'd) event list \<Rightarrow> ('u \<times> 'u \<times> 'u) list" where
  "called [] = []"
| "called (Proc d # es) = range_of d # called es"
| "called (e # es) = called es"

text \<open>The loop indices a list of ranges covers, in order, each range read as [min, max).\<close>

definition iterations :: "('w::len word \<times> 'w word \<times> 'w word) list \<Rightarrow> nat list" where
  "iterations rs = concat (map (\<lambda>(mn, mx, t). [unat mn..<unat mx]) rs)"

section \<open>Arithmetic of the partition\<close>

text \<open>
  The two ceiling divisions on natural numbers, where nothing wraps around: the block
  size \<open>B\<close>, the number of threads \<open>n\<close>, and the bounds that make \<open>n\<close> blocks of size
  \<open>B\<close> cover \<open>L\<close> iterations with a last block that is not empty.
\<close>

lemma ceil_div_facts:
  fixes L N B n :: nat
  assumes L: "0 < L" and N: "0 < N"
    and B: "B = (L + N - 1) div N" and n: "n = (L + B - 1) div B"
  shows "1 \<le> B" "B \<le> L" "L \<le> N * B" "1 \<le> n" "n \<le> N" "n \<le> L"
    "(n - 1) * B < L" "L \<le> n * B" "n * B \<le> L + B - 1"
proof -
  have "N \<le> L + N - 1" using L by simp
  then have "N div N \<le> (L + N - 1) div N" by (rule div_le_mono)
  then show B1: "1 \<le> B" using N B by simp
  have "(L + N - 1) div N \<le> (L * N) div N"
  proof (rule div_le_mono)
    obtain l m where "L = Suc l" "N = Suc m" using L N by (metis Suc_pred)
    then show "L + N - 1 \<le> L * N" by simp
  qed
  then show "B \<le> L" using N B by simp
  have "L + N - 1 = N * B + (L + N - 1) mod N" using B by simp
  moreover have "(L + N - 1) mod N < N" using N by simp
  ultimately show LN: "L \<le> N * B" by linarith
  have "B \<le> L + B - 1" using L by simp
  then have "B div B \<le> (L + B - 1) div B" by (rule div_le_mono)
  then show n1: "1 \<le> n" using B1 n by simp
  have e: "L + B - 1 = n * B + (L + B - 1) mod B" using n by simp
  moreover have "(L + B - 1) mod B < B" using B1 by simp
  ultimately show Ln: "L \<le> n * B" by linarith
  from e show nB: "n * B \<le> L + B - 1" by linarith
  have "(n - 1) * B = n * B - B" by (simp add: diff_mult_distrib)
  with nB B1 L show lt: "(n - 1) * B < L" by linarith
  from lt LN have "(n - 1) * B < N * B" by linarith
  then have "n - 1 < N" by simp
  then show "n \<le> N" by linarith
  have "n - 1 \<le> (n - 1) * B" using B1 by simp
  with lt show "n \<le> L" by linarith
qed


lemma unat_ceil_sum:
  fixes a b :: "'w::len word"
  assumes "a \<noteq> 0"
  shows "unat (a + b - 1) = (unat a + unat b - 1) mod 2 ^ LENGTH('w)"
proof -
  have "a + b - 1 = (a - 1) + b" by simp
  then have "unat (a + b - 1) = (unat (a - 1) + unat b) mod 2 ^ LENGTH('w)"
    by (simp only: unat_word_ariths)
  also have "unat (a - 1) = unat a - 1" using assms by (rule unat_minus_one)
  also have "unat a - 1 + unat b = unat a + unat b - 1"
    using assms by (simp add: unat_gt_0 Suc_leI)
  finally show ?thesis .
qed

lemma wrapped_less:
  fixes L N W :: nat
  assumes "0 < L" "L < W" "N < W" "W \<le> L + N - 1"
  shows "(L + N - 1) mod W < N"
proof -
  have "L + N - 1 < 2 * W" using assms by linarith
  then have "(L + N - 1) mod W = L + N - 1 - W"
    using assms(4) by (metis le_add_diff_inverse2 mod_add_self2 mod_less mult_2 nat_add_left_cancel_less add.commute)
  then show ?thesis using assms by linarith
qed

lemma partitioner_Inr:
  fixes loopmax nthr bs n :: "'w::len word"
  assumes "partitioner loopmax nthr = Inr (bs, n)"
  shows "loopmax \<noteq> 0" "nthr \<noteq> 0" "bs \<noteq> 0"
    "unat loopmax + unat nthr - 1 < 2 ^ LENGTH('w)"
    "unat bs = (unat loopmax + unat nthr - 1) div unat nthr"
    "unat n = ((unat loopmax + unat bs - 1) mod 2 ^ LENGTH('w)) div unat bs"
proof -
  from assms show N0: "nthr \<noteq> 0"
    by (auto simp: partitioner_def udiv_def split: if_splits sum.splits)
  from assms have bs: "bs = (loopmax + nthr - 1) div nthr"
    by (auto simp: partitioner_def udiv_def split: if_splits sum.splits)
  from assms show B0: "bs \<noteq> 0"
    by (auto simp: partitioner_def udiv_def split: if_splits sum.splits)
  from assms have n: "n = (loopmax + bs - 1) div bs"
    by (auto simp: partitioner_def udiv_def split: if_splits sum.splits)
  have Npos: "0 < unat nthr" using N0 by (simp add: unat_gt_0)
  show L0: "loopmax \<noteq> 0"
  proof
    assume "loopmax = 0"
    then have "unat bs = (unat nthr - 1) div unat nthr"
      using bs N0 by (simp add: unat_div unat_minus_one)
    then have "unat bs = 0" using Npos by simp
    then show False using B0 by (simp add: unat_eq_0)
  qed
  then have Lpos: "0 < unat loopmax" by (simp add: unat_gt_0)
  have ubs: "unat bs = ((unat loopmax + unat nthr - 1) mod 2 ^ LENGTH('w)) div unat nthr"
    unfolding bs unat_div unat_ceil_sum [OF L0] ..
  show nowrap: "unat loopmax + unat nthr - 1 < 2 ^ LENGTH('w)"
  proof (rule ccontr)
    assume "\<not> ?thesis"
    then have "(unat loopmax + unat nthr - 1) mod 2 ^ LENGTH('w) < unat nthr"
      using Lpos unsigned_less [of loopmax] unsigned_less [of nthr]
      by (intro wrapped_less) simp_all
    then have "unat bs = 0" using ubs by simp
    then show False using B0 by (simp add: unat_eq_0)
  qed
  then show "unat bs = (unat loopmax + unat nthr - 1) div unat nthr"
    using ubs by simp
  show "unat n = ((unat loopmax + unat bs - 1) mod 2 ^ LENGTH('w)) div unat bs"
    unfolding n unat_div unat_ceil_sum [OF L0] ..
qed

lemma partitioner_Inr_pos:
  fixes loopmax nthr bs n :: "'w::len word"
  assumes "partitioner loopmax nthr = Inr (bs, n)" and "n \<noteq> 0"
  shows "unat loopmax + unat bs - 1 < 2 ^ LENGTH('w)"
    "unat n = (unat loopmax + unat bs - 1) div unat bs"
proof -
  note p = partitioner_Inr [OF assms(1)]
  have Lpos: "0 < unat loopmax" using p(1) by (simp add: unat_gt_0)
  show nowrap: "unat loopmax + unat bs - 1 < 2 ^ LENGTH('w)"
  proof (rule ccontr)
    assume "\<not> ?thesis"
    then have "(unat loopmax + unat bs - 1) mod 2 ^ LENGTH('w) < unat bs"
      using Lpos unsigned_less [of loopmax] unsigned_less [of bs]
      by (intro wrapped_less) simp_all
    then have "unat n = 0" using p(6) by simp
    then show False using assms(2) by (simp add: unat_eq_0)
  qed
  then show "unat n = (unat loopmax + unat bs - 1) div unat bs"
    using p(6) by simp
qed

lemma partitioner_Inr_zero:
  fixes loopmax nthr bs :: "'w::len word"
  assumes "partitioner loopmax nthr = Inr (bs, 0)"
  shows "2 ^ LENGTH('w) \<le> unat loopmax + unat bs - 1"
proof (rule ccontr)
  note p = partitioner_Inr [OF assms]
  assume "\<not> ?thesis"
  then have "(unat loopmax + unat bs - 1) div unat bs = 0"
    using p(6) by simp
  moreover have "0 < unat loopmax" using p(1) by (simp add: unat_gt_0)
  then have "unat bs \<le> unat loopmax + unat bs - 1" by linarith
  moreover have "0 < unat bs" using p(3) by (simp add: unat_gt_0)
  ultimately show False by (simp add: div_eq_0_iff)
qed

section \<open>The loops in closed form\<close>

text \<open>
  A loop index below the bound can be incremented without wrap-around, so each loop runs
  through the indices from \<open>unat i\<close> up to the bound, one event per index.
\<close>

lemma unat_bound: "unat (w :: 'w::len word) < 2 ^ LENGTH('w)"
  by (rule unsigned_less)

lemma unat_succ_less:
  fixes i m :: "'w::len word"
  assumes "i < m"
  shows "unat (i + 1) = Suc (unat i)"
proof -
  from assms have "unat i < unat m" by (simp add: word_less_nat_alt)
  moreover have "unat m < 2 ^ LENGTH('w)" by (rule unsigned_less)
  ultimately have "unat i + unat (1::'w word) < 2 ^ LENGTH('w)" unfolding unat_1 by linarith
  then show ?thesis by (simp add: unat_add_lem [THEN iffD1])
qed

lemma upt_unat_step:
  fixes i m :: "'w::len word"
  assumes "i < m"
  shows "[unat i..<unat m] = unat i # [unat (i + 1)..<unat m]"
  using assms by (simp add: unat_succ_less [OF assms] word_less_nat_alt upt_conv_Cons)

lemma upt_unat_done:
  fixes i m :: "'w::len word"
  assumes "\<not> i < m"
  shows "[unat i..<unat m] = []"
  using assms by (simp add: word_less_nat_alt)

lemma wait_loop_eq:
  "wait_loop i m = map (\<lambda>k. Thr_Wait (of_nat k)) [unat i..<unat m]"
proof (induction i m rule: wait_loop.induct)
  case (1 i m)
  show ?case
  proof (cases "i < m")
    case True
    with 1 show ?thesis
      by (subst wait_loop.simps) (simp add: upt_unat_step)
  next
    case False
    then show ?thesis
      by (subst wait_loop.simps) (simp add: upt_unat_done)
  qed
qed

lemma explicit_loop_eq:
  "i \<le> m \<Longrightarrow> explicit_loop i m bs loopmax dat =
     map (\<lambda>k. Thr_Spawn (of_nat k) (spawn_block (of_nat k) bs dat)) [unat i..<unat m]
       @ [Proc (final_block m bs loopmax dat)]"
proof (induction i m bs loopmax dat rule: explicit_loop.induct)
  case (1 i m bs loopmax dat)
  show ?case
  proof (cases "i < m")
    case True
    then have "i + 1 \<le> m" by (simp add: inc_le)
    with 1 True show ?thesis
      by (subst explicit_loop.simps)
         (simp add: upt_unat_step)
  next
    case False
    with 1(2) have "i = m" by simp
    then show ?thesis
      by (subst explicit_loop.simps) simp
  qed
qed

lemma compiler_loop_eq:
  "compiler_loop i m bs loopmax dat =
     map (\<lambda>k. Proc (clamped_block (of_nat k) bs loopmax dat)) [unat i..<unat m]"
proof (induction i m bs loopmax dat rule: compiler_loop.induct)
  case (1 i m bs loopmax dat)
  show ?case
  proof (cases "i < m")
    case True
    with 1 show ?thesis
      by (subst compiler_loop.simps)
         (simp add: upt_unat_step)
  next
    case False
    then show ?thesis
      by (subst compiler_loop.simps) (simp add: upt_unat_done)
  qed
qed

lemma ranges_of_append: "ranges_of (xs @ ys) = ranges_of xs @ ranges_of ys"
  by (induction xs rule: ranges_of.induct) simp_all

lemma spawned_append: "spawned (xs @ ys) = spawned xs @ spawned ys"
  by (induction xs rule: spawned.induct) simp_all

lemma called_append: "called (xs @ ys) = called xs @ called ys"
  by (induction xs rule: called.induct) simp_all

lemma ranges_of_spawns: "ranges_of (map (\<lambda>k. Thr_Spawn (t k) (f k)) ks) = map (\<lambda>k. range_of (f k)) ks"
  by (induction ks) simp_all

lemma ranges_of_procs: "ranges_of (map (\<lambda>k. Proc (f k)) ks) = map (\<lambda>k. range_of (f k)) ks"
  by (induction ks) simp_all

lemma ranges_of_waits: "ranges_of (map (\<lambda>k. Thr_Wait (t k)) ks) = []"
  by (induction ks) simp_all

lemma spawned_spawns: "spawned (map (\<lambda>k. Thr_Spawn (t k) (f k)) ks) = map (\<lambda>k. range_of (f k)) ks"
  by (induction ks) simp_all

lemma spawned_waits: "spawned (map (\<lambda>k. Thr_Wait (t k)) ks) = []"
  by (induction ks) simp_all

lemma called_spawns: "called (map (\<lambda>k. Thr_Spawn (t k) (f k)) ks) = []"
  by (induction ks) simp_all

lemma called_waits: "called (map (\<lambda>k. Thr_Wait (t k)) ks) = []"
  by (induction ks) simp_all

lemma block_bounds:
  fixes loopmax nthr bs n i :: "'w::len word"
  assumes p: "partitioner loopmax nthr = Inr (bs, n)" and i: "i < n"
  shows "unat (i * bs) = unat i * unat bs"
    and "unat (i * bs + bs) = (unat i + 1) * unat bs"
    and "unat i * unat bs < unat loopmax"
    and "i + 1 < n \<Longrightarrow> (unat i + 1) * unat bs < unat loopmax"
    and "i + 1 = n \<Longrightarrow> unat loopmax \<le> (unat i + 1) * unat bs"
proof -
  note q = partitioner_Inr [OF p]
  from i have n0: "n \<noteq> 0" by auto
  note r = partitioner_Inr_pos [OF p n0]
  have L: "0 < unat loopmax" and N: "0 < unat nthr"
    using q(1,2) by (simp_all add: unat_gt_0)
  note c = ceil_div_facts [OF L N q(5) r(2)]
  from i have I: "unat i < unat n" by (simp add: word_less_nat_alt)
  then have "unat i \<le> unat n - 1" by linarith
  then have "unat i * unat bs \<le> (unat n - 1) * unat bs" by (rule mult_le_mono1)
  with c(7) show lt: "unat i * unat bs < unat loopmax" by linarith
  then have "unat i * unat bs < 2 ^ LENGTH('w)"
    using unat_bound [of loopmax] by linarith
  then show m: "unat (i * bs) = unat i * unat bs" by (simp add: unat_mult_lem [THEN iffD1])
  from I have "unat i + 1 \<le> unat n" by linarith
  then have le: "(unat i + 1) * unat bs \<le> unat n * unat bs" by (rule mult_le_mono1)
  moreover have "unat i * unat bs + unat bs = (unat i + 1) * unat bs" by simp
  ultimately have "unat (i * bs) + unat bs < 2 ^ LENGTH('w)"
    unfolding m using c(9) r(1) by linarith
  then have "unat (i * bs + bs) = unat (i * bs) + unat bs"
    by (simp add: unat_add_lem [THEN iffD1])
  then show "unat (i * bs + bs) = (unat i + 1) * unat bs" unfolding m by simp
  {
    assume "i + 1 < n"
    then have "unat (i + 1) < unat n" by (simp add: word_less_nat_alt)
    then have "unat i + 1 \<le> unat n - 1" unfolding unat_succ_less [OF i] by linarith
    then have "(unat i + 1) * unat bs \<le> (unat n - 1) * unat bs" by (rule mult_le_mono1)
    with c(7) show "(unat i + 1) * unat bs < unat loopmax" by linarith
  }
  {
    assume "i + 1 = n"
    then have "unat n = unat i + 1" using unat_succ_less [OF i] by simp
    with c(8) show "unat loopmax \<le> (unat i + 1) * unat bs" by simp
  }
qed

section \<open>The example of the source comment: five iterations, four threads\<close>

text \<open>
  C4. For \<^verbatim>\<open>loopmax = 5\<close> and \<^verbatim>\<open>nthr = 4\<close> (at 32 bits) the partition is the block size
  2 and 3 threads, and every build with \<^verbatim>\<open>HAVE_THREADS\<close> hands out exactly the ranges
  [0,2), [2,4), [4,5) with \<^verbatim>\<open>thr_num\<close> 0, 1, 2: the compiler-managed variant calls the
  work function on each, the explicit variant spawns threads for the first two, runs the
  third itself and then waits for the two threads.
\<close>

theorem spawn_loop_5_4:
  assumes "have_threads b"
  shows "partitioner (5 :: 32 word) 4 = Inr (2, 3)
    \<and> spawn_loop b (5 :: 32 word) 4 dat =
        Inr (if using_compiler_threads b then
               [Thread_On,
                Proc \<lparr>min_d = 0, max_d = 2, thr_num = 0, data = dat\<rparr>,
                Proc \<lparr>min_d = 2, max_d = 4, thr_num = 1, data = dat\<rparr>,
                Proc \<lparr>min_d = 4, max_d = 5, thr_num = 2, data = dat\<rparr>,
                Thread_Off]
             else
               [Thread_On,
                Thr_Spawn 0 \<lparr>min_d = 0, max_d = 2, thr_num = 0, data = dat\<rparr>,
                Thr_Spawn 1 \<lparr>min_d = 2, max_d = 4, thr_num = 1, data = dat\<rparr>,
                Proc \<lparr>min_d = 4, max_d = 5, thr_num = 2, data = dat\<rparr>,
                Thr_Wait 0, Thr_Wait 1, Thread_Off])
    \<and> map_sum id ranges_of (spawn_loop b (5 :: 32 word) 4 dat) =
        Inr [(0, 2, 0), (2, 4, 1), (4, 5, 2)]"
  using assms
  by (simp add: spawn_loop_def spawn_loop_threads_def A_def partitioner_def udiv_def
      compiler_loop.simps explicit_loop.simps wait_loop.simps
      clamped_block_def spawn_block_def final_block_def range_of_def
      word_le_nat_alt word_less_nat_alt)

theorem spawn_loop_5_4_witness:
  "have_threads \<lparr>have_threads = True, threads_api = Some Posix\<rparr>
    \<and> map_sum id ranges_of
         (spawn_loop \<lparr>have_threads = True, threads_api = Some Posix\<rparr> (5 :: 32 word) 4 ()) =
        Inr [(0, 2, 0), (2, 4, 1), (4, 5, 2)]"
  using spawn_loop_5_4 [of "\<lparr>have_threads = True, threads_api = Some Posix\<rparr>" "()"]
  by (simp add: using_compiler_threads_def range_of_def)

section \<open>The synchronous paths and the contract\<close>

lemma partitioner_one_iteration:
  fixes nthr :: "'w::len word"
  assumes "0 < nthr"
  shows "partitioner 1 nthr = Inr (1, 1)"
proof -
  from assms have "nthr \<noteq> 0" by auto
  moreover from this have "nthr div nthr = 1"
    by (rule div_word_self)
  ultimately show ?thesis by (simp add: partitioner_def udiv_def)
qed

lemma partitioner_one_thread:
  fixes loopmax :: "'w::len word"
  assumes "0 < loopmax"
  shows "\<exists>n. partitioner loopmax 1 = Inr (loopmax, n) \<and> n \<le> 1"
proof -
  from assms have L0: "loopmax \<noteq> 0" by auto
  then have L: "0 < unat loopmax" by (simp add: unat_gt_0)
  let ?n = "(loopmax + loopmax - 1) div loopmax"
  have p: "partitioner loopmax 1 = Inr (loopmax, ?n)"
    using L0 by (simp add: partitioner_def udiv_def)
  have "unat (loopmax + loopmax - 1) \<le> unat loopmax + unat loopmax - 1"
    unfolding unat_ceil_sum [OF L0] by (rule mod_less_eq_dividend)
  then have "unat ?n \<le> (unat loopmax + unat loopmax - 1) div unat loopmax"
    unfolding unat_div by (rule div_le_mono)
  also have "\<dots> \<le> 1"
  proof -
    have "unat loopmax + unat loopmax - 1 < 2 * unat loopmax" using L by linarith
    then have "(unat loopmax + unat loopmax - 1) div unat loopmax < 2"
      using L by (simp add: less_mult_imp_div_less)
    then show ?thesis by linarith
  qed
  finally have "?n \<le> 1" by (simp add: word_le_nat_alt)
  with p show ?thesis by blast
qed

text \<open>
  C3. Whenever the partition gives at most one thread, the dispatcher makes exactly one
  call of the work function, itself, on the range [0, loopmax) with \<^verbatim>\<open>thr_num = 0\<close>, spawns
  no thread and returns; this is so in every build. It is the case for \<^verbatim>\<open>loopmax = 1\<close> with
  any positive \<^verbatim>\<open>nthr\<close> and for \<^verbatim>\<open>nthr = 1\<close> with any positive \<^verbatim>\<open>loopmax\<close>, at every width
  of \<^verbatim>\<open>uint\<close>.
\<close>

theorem spawn_loop_single:
  fixes loopmax nthr bs n :: "'w::len word"
  shows "(0 < loopmax \<and> 0 < nthr \<and> partitioner loopmax nthr = Inr (bs, n) \<and> n \<le> 1 \<longrightarrow>
            spawn_loop b loopmax nthr dat =
              Inr [Proc \<lparr>min_d = 0, max_d = loopmax, thr_num = 0, data = dat\<rparr>])
       \<and> (0 < nthr \<longrightarrow>
            spawn_loop b 1 nthr dat = Inr [Proc \<lparr>min_d = 0, max_d = 1, thr_num = 0, data = dat\<rparr>])
       \<and> (0 < loopmax \<longrightarrow>
            spawn_loop b loopmax 1 dat =
              Inr [Proc \<lparr>min_d = 0, max_d = loopmax, thr_num = 0, data = dat\<rparr>])"
proof (intro conjI impI)
  assume "0 < loopmax \<and> 0 < nthr \<and> partitioner loopmax nthr = Inr (bs, n) \<and> n \<le> 1"
  then show "spawn_loop b loopmax nthr dat =
      Inr [Proc \<lparr>min_d = 0, max_d = loopmax, thr_num = 0, data = dat\<rparr>]"
    by (simp add: spawn_loop_def spawn_loop_threads_def spawn_loop_nothreads_def A_def)
next
  assume "0 < nthr"
  then show "spawn_loop b 1 nthr dat =
      Inr [Proc \<lparr>min_d = 0, max_d = 1, thr_num = 0, data = dat\<rparr>]"
    by (simp add: spawn_loop_def spawn_loop_threads_def spawn_loop_nothreads_def A_def
        partitioner_one_iteration)
next
  assume L: "0 < loopmax"
  from partitioner_one_thread [OF L] obtain n' where
    "partitioner loopmax 1 = Inr (loopmax, n')" "n' \<le> 1" by blast
  with L show "spawn_loop b loopmax 1 dat =
      Inr [Proc \<lparr>min_d = 0, max_d = loopmax, thr_num = 0, data = dat\<rparr>]"
    by (simp add: spawn_loop_def spawn_loop_threads_def spawn_loop_nothreads_def A_def)
qed

theorem spawn_loop_single_witness:
  "(0 < (1 :: 32 word) \<and> 0 < (8 :: 32 word) \<and> partitioner (1 :: 32 word) 8 = Inr (1, 1)
      \<and> (1 :: 32 word) \<le> 1)
   \<and> spawn_loop \<lparr>have_threads = True, threads_api = Some Posix\<rparr> (1 :: 32 word) 8 () =
        Inr [Proc \<lparr>min_d = 0, max_d = 1, thr_num = 0, data = ()\<rparr>]
   \<and> spawn_loop \<lparr>have_threads = True, threads_api = Some Posix\<rparr> (100 :: 32 word) 1 () =
        Inr [Proc \<lparr>min_d = 0, max_d = 100, thr_num = 0, data = ()\<rparr>]"
  using spawn_loop_single [of "1 :: 32 word" 8 1 1
      "\<lparr>have_threads = True, threads_api = Some Posix\<rparr>" "()"]
    spawn_loop_single [of "100 :: 32 word" 1 100 1
      "\<lparr>have_threads = True, threads_api = Some Posix\<rparr>" "()"]
  by (simp add: partitioner_def udiv_def)

text \<open>
  C6. In a build without \<^verbatim>\<open>HAVE_THREADS\<close> and without any threads glue, the initializer
  returns the status -31416, which is not the success status 0, and the dispatcher calls
  the work function exactly once on [0, loopmax) with \<^verbatim>\<open>thr_num = 0\<close>, whatever \<^verbatim>\<open>nthr\<close> is.
\<close>

theorem no_threads_single_range:
  fixes loopmax nthr :: "'w::len word"
  assumes "\<not> have_threads b" and "threads_api b = None"
  shows "threads_init b e = - 31416 \<and> threads_init b e \<noteq> 0
    \<and> spawn_loop b loopmax nthr dat =
        Inr [Proc \<lparr>min_d = 0, max_d = loopmax, thr_num = 0, data = dat\<rparr>]"
  using assms
  by (simp add: threads_init_def using_posix_threads_def spawn_loop_def spawn_loop_nothreads_def)

theorem no_threads_single_range_witness:
  "\<not> have_threads \<lparr>have_threads = False, threads_api = None\<rparr>
   \<and> threads_api \<lparr>have_threads = False, threads_api = None\<rparr> = None
   \<and> threads_init \<lparr>have_threads = False, threads_api = None\<rparr>
        \<lparr>attr_init = 0, attr_getdetachstate = 0, detachstate_joinable = True,
         attr_setdetachstate = 0, attr_getscope = 0, scope_system = True,
         attr_setscope = 0, attr_destroy = 0\<rparr> = - 31416
   \<and> spawn_loop \<lparr>have_threads = False, threads_api = None\<rparr> (100 :: 32 word) 8 () =
        Inr [Proc \<lparr>min_d = 0, max_d = 100, thr_num = 0, data = ()\<rparr>]"
  using no_threads_single_range [of "\<lparr>have_threads = False, threads_api = None\<rparr>"
      "\<lparr>attr_init = 0, attr_getdetachstate = 0, detachstate_joinable = True,
         attr_setdetachstate = 0, attr_getscope = 0, scope_system = True,
         attr_setscope = 0, attr_destroy = 0\<rparr>" "100 :: 32 word" 8 "()"]
  by simp

text \<open>
  C7, as stated, fails: the dispatcher of the build without \<^verbatim>\<open>HAVE_THREADS\<close> has no
  assertion and marks \<^verbatim>\<open>nthr\<close> as unused. Called with \<^verbatim>\<open>nthr = 0\<close> it runs the work function
  on [0, 5) and returns.
\<close>

theorem no_threads_unchecked:
  "(0 :: 32 word) = 0
   \<and> spawn_loop \<lparr>have_threads = False, threads_api = None\<rparr> (5 :: 32 word) 0 () =
        Inr [Proc \<lparr>min_d = 0, max_d = 5, thr_num = 0, data = ()\<rparr>]
   \<and> spawn_loop \<lparr>have_threads = False, threads_api = None\<rparr> (5 :: 32 word) 0 () \<noteq>
        Inl Assertion_Failed"
  by (simp add: spawn_loop_def spawn_loop_nothreads_def)

text \<open>
  C7, amended. In every build with \<^verbatim>\<open>HAVE_THREADS\<close>, of either variant, a call with
  \<^verbatim>\<open>loopmax = 0\<close> or \<^verbatim>\<open>nthr = 0\<close> ends in the failed assertion, before any range is handed
  out.
\<close>

theorem threads_contract_asserted:
  fixes loopmax nthr :: "'w::len word"
  assumes "have_threads b" and "loopmax = 0 \<or> nthr = 0"
  shows "spawn_loop b loopmax nthr dat = Inl Assertion_Failed"
  using assms by (auto simp: spawn_loop_def spawn_loop_threads_def A_def)

theorem threads_contract_asserted_witness:
  "have_threads \<lparr>have_threads = True, threads_api = Some Posix\<rparr>
   \<and> ((0 :: 32 word) = 0 \<or> (4 :: 32 word) = 0)
   \<and> spawn_loop \<lparr>have_threads = True, threads_api = Some Posix\<rparr> (0 :: 32 word) 4 () =
        Inl Assertion_Failed
   \<and> spawn_loop \<lparr>have_threads = True, threads_api = Some OpenMP\<rparr> (7 :: 32 word) 0 () =
        Inl Assertion_Failed"
  using threads_contract_asserted [of "\<lparr>have_threads = True, threads_api = Some Posix\<rparr>"
      "0 :: 32 word" 4 "()"]
    threads_contract_asserted [of "\<lparr>have_threads = True, threads_api = Some OpenMP\<rparr>"
      "7 :: 32 word" 0 "()"]
  by simp

section \<open>The threaded variants\<close>

text \<open>
  With more than one thread, the events of a call in either variant, and the ranges they
  carry: in the compiler-managed variant the clamp leaves every block but the last as it
  is, and turns the end of the last block into \<^verbatim>\<open>loopmax\<close>.
\<close>

lemma range_of_spawn_block [simp]:
  "range_of (spawn_block i bs dat) = (i * bs, i * bs + bs, i)"
  by (simp add: range_of_def spawn_block_def)

lemma range_of_final_block [simp]:
  "range_of (final_block i bs loopmax dat) = (i * bs, loopmax, i)"
  by (simp add: range_of_def final_block_def)

lemma range_of_clamped_block [simp]:
  "range_of (clamped_block i bs loopmax dat) =
     (i * bs, if i * bs + bs > loopmax then loopmax else i * bs + bs, i)"
  by (simp add: range_of_def clamped_block_def Let_def)

lemma unat_of_nat_less:
  fixes n :: "'w::len word"
  assumes "k < unat n"
  shows "unat (of_nat k :: 'w word) = k"
  using assms by (simp add: le_unat_uoi [of k n])

lemma of_nat_less:
  fixes n :: "'w::len word"
  assumes "k < unat n"
  shows "(of_nat k :: 'w word) < n"
  using assms by (simp add: word_less_nat_alt unat_of_nat_less)

lemma spawn_loop_threads_explicit:
  fixes loopmax nthr bs n :: "'w::len word"
  assumes p: "partitioner loopmax nthr = Inr (bs, n)" and n: "1 < n"
  shows "spawn_loop_threads False loopmax nthr dat =
     Inr (Thread_On #
          map (\<lambda>k. Thr_Spawn (of_nat k) (spawn_block (of_nat k) bs dat)) [0..<unat n - 1]
          @ [Proc (final_block (n - 1) bs loopmax dat)]
          @ map (\<lambda>k. Thr_Wait (of_nat k)) [0..<unat n - 1] @ [Thread_Off])"
proof -
  note q = partitioner_Inr [OF p]
  from n have n0: "n \<noteq> 0" by auto
  have m: "unat (n - 1) = unat n - 1" using n0 by (rule unat_minus_one)
  have "0 < loopmax" "0 < nthr" using q(1,2) by (simp_all add: word_neq_0_conv)
  moreover have "\<not> n \<le> 1" using n by simp
  ultimately show ?thesis
    using p by (simp add: spawn_loop_threads_def A_def explicit_loop_eq wait_loop_eq m)
qed

lemma spawn_loop_threads_compiler:
  fixes loopmax nthr bs n :: "'w::len word"
  assumes p: "partitioner loopmax nthr = Inr (bs, n)" and n: "1 < n"
  shows "spawn_loop_threads True loopmax nthr dat =
     Inr (Thread_On #
          map (\<lambda>k. Proc (clamped_block (of_nat k) bs loopmax dat)) [0..<unat n]
          @ [Thread_Off])"
proof -
  note q = partitioner_Inr [OF p]
  have "0 < loopmax" "0 < nthr" using q(1,2) by (simp_all add: word_neq_0_conv)
  moreover have "\<not> n \<le> 1" using n by simp
  ultimately show ?thesis
    using p by (simp add: spawn_loop_threads_def A_def compiler_loop_eq)
qed


lemma clamped_is_spawn_block:
  fixes loopmax nthr bs n :: "'w::len word"
  assumes p: "partitioner loopmax nthr = Inr (bs, n)" and k: "k < unat n - 1"
  shows "range_of (clamped_block (of_nat k) bs loopmax dat) =
         range_of (spawn_block (of_nat k :: 'w word) bs dat')"
proof -
  let ?i = "of_nat k :: 'w word"
  from k have kn: "k < unat n" by linarith
  have uk: "unat ?i = k" using kn by (rule unat_of_nat_less)
  have i: "?i < n" using kn by (rule of_nat_less)
  have "unat (?i + 1) = Suc k" using unat_succ_less [OF i] uk by simp
  then have "?i + 1 < n" using k by (simp add: word_less_nat_alt)
  note b = block_bounds(2) [OF p i] block_bounds(4) [OF p i this]
  then have "\<not> loopmax < ?i * bs + bs" by (simp add: word_less_nat_alt)
  then show ?thesis by simp
qed

lemma clamped_is_final_block:
  fixes loopmax nthr bs n :: "'w::len word"
  assumes p: "partitioner loopmax nthr = Inr (bs, n)" and n: "n \<noteq> 0"
  shows "range_of (clamped_block (n - 1) bs loopmax dat) =
         range_of (final_block (n - 1) bs loopmax dat')"
proof -
  let ?i = "n - 1"
  have i: "?i < n" using n by (simp add: word_less_nat_alt unat_minus_one unat_gt_0)
  have "?i + 1 = n" by simp
  note b = block_bounds(2) [OF p i] block_bounds(5) [OF p i this]
  then have "\<not> loopmax < ?i * bs + bs \<Longrightarrow> ?i * bs + bs = loopmax"
    by (simp add: word_less_nat_alt word_unat_eq_iff)
  then show ?thesis by auto
qed

lemma ranges_of_explicit:
  fixes loopmax nthr bs n :: "'w::len word"
  assumes p: "partitioner loopmax nthr = Inr (bs, n)" and n: "1 < n"
  shows "map_sum id ranges_of (spawn_loop_threads False loopmax nthr dat) =
     Inr (map (\<lambda>k. (of_nat k * bs, of_nat k * bs + bs, of_nat k)) [0..<unat n - 1]
          @ [((n - 1) * bs, loopmax, n - 1)])"
  unfolding spawn_loop_threads_explicit [OF p n]
  by (simp add: ranges_of_append ranges_of_spawns ranges_of_waits)

lemma ranges_of_compiler:
  fixes loopmax nthr bs n :: "'w::len word"
  assumes p: "partitioner loopmax nthr = Inr (bs, n)" and n: "1 < n"
  shows "map_sum id ranges_of (spawn_loop_threads True loopmax nthr dat) =
     Inr (map (\<lambda>k. (of_nat k * bs, of_nat k * bs + bs, of_nat k)) [0..<unat n - 1]
          @ [((n - 1) * bs, loopmax, n - 1)])"
proof -
  from n have n0: "n \<noteq> 0" by auto
  then have "0 < unat n" by (simp add: unat_gt_0)
  then have un: "unat n = Suc (unat n - 1)" by simp
  have last: "(of_nat (unat n - 1) :: 'w word) = n - 1"
    unfolding unat_minus_one [OF n0, symmetric] by simp
  then have last': "(of_nat (unat n - Suc 0) :: 'w word) = n - 1" by simp
  have "map (\<lambda>k. range_of (clamped_block (of_nat k) bs loopmax dat)) [0..<unat n] =
        map (\<lambda>k. range_of (clamped_block (of_nat k) bs loopmax dat)) [0..<unat n - 1]
          @ [range_of (clamped_block (n - 1) bs loopmax dat)]"
    by (subst un) (simp add: last' del: range_of_clamped_block)
  also have "map (\<lambda>k. range_of (clamped_block (of_nat k) bs loopmax dat)) [0..<unat n - 1] =
        map (\<lambda>k. range_of (spawn_block (of_nat k :: 'w word) bs dat)) [0..<unat n - 1]"
    by (rule map_cong) (simp_all add: clamped_is_spawn_block [OF p] del: range_of_clamped_block range_of_spawn_block)
  also have "range_of (clamped_block (n - 1) bs loopmax dat) =
        range_of (final_block (n - 1) bs loopmax dat)"
    using p n0 by (rule clamped_is_final_block)
  finally show ?thesis
    unfolding spawn_loop_threads_compiler [OF p n]
    by (simp add: ranges_of_append ranges_of_procs del: range_of_clamped_block)
qed

lemma ranges_of_threads:
  fixes loopmax nthr :: "'w::len word"
  shows "map_sum id ranges_of (spawn_loop_threads c loopmax nthr dat) =
         map_sum id ranges_of (spawn_loop_threads False loopmax nthr dat')"
proof (cases "0 < loopmax \<and> 0 < nthr")
  case False
  then show ?thesis by (auto simp: spawn_loop_threads_def A_def)
next
  case True
  show ?thesis
  proof (cases "partitioner loopmax nthr")
    case (Inl e)
    with True show ?thesis by (simp add: spawn_loop_threads_def A_def)
  next
    case (Inr r)
    obtain bs n where r: "r = (bs, n)" by (cases r)
    show ?thesis
    proof (cases "n \<le> 1")
      case le: True
      with True Inr r show ?thesis
        by (simp add: spawn_loop_threads_def A_def range_of_def)
    next
      case False
      then have "1 < n" by simp
      with Inr r show ?thesis
        by (cases c) (simp_all only: ranges_of_compiler ranges_of_explicit)
    qed
  qed
qed

text \<open>
  C10. The compiler-managed variant, which clamps the end of every block to \<^verbatim>\<open>loopmax\<close>,
  and the explicit variant, which leaves all blocks but the last unclamped and ends the
  last one at \<^verbatim>\<open>loopmax\<close>, hand out the same sequence of ranges (min, max, thr_num), for
  all arguments and at every width of \<^verbatim>\<open>uint\<close>; where the dispatcher fails, both fail alike.
\<close>

theorem compiler_explicit_same_ranges:
  fixes loopmax nthr :: "'w::len word"
  shows "map_sum id ranges_of (spawn_loop_threads True loopmax nthr dat) =
         map_sum id ranges_of (spawn_loop_threads False loopmax nthr dat)"
  by (rule ranges_of_threads)

lemma ranges_data_independent:
  fixes loopmax nthr :: "'w::len word"
  shows "map_sum id ranges_of (spawn_loop b loopmax nthr dat') =
         map_sum id ranges_of (spawn_loop b loopmax nthr dat)"
proof (cases "have_threads b")
  case False
  then show ?thesis by (simp add: spawn_loop_def spawn_loop_nothreads_def range_of_def)
next
  case True
  then show ?thesis
    using ranges_of_threads [of "using_compiler_threads b" loopmax nthr dat' dat]
      ranges_of_threads [of "using_compiler_threads b" loopmax nthr dat dat]
    by (simp add: spawn_loop_def)
qed

text \<open>
  C8. Two calls with the same \<^verbatim>\<open>loopmax\<close> and the same \<^verbatim>\<open>nthr\<close> compute the same block size
  and number of threads and hand out the same sequence of ranges (min, max, thr_num),
  whatever the shared data pointers of the two calls are.
\<close>

theorem partition_deterministic:
  fixes loopmax nthr loopmax' nthr' :: "'w::len word"
  assumes "loopmax' = loopmax" and "nthr' = nthr"
  shows "partitioner loopmax' nthr' = partitioner loopmax nthr
    \<and> map_sum id ranges_of (spawn_loop b loopmax' nthr' dat') =
        map_sum id ranges_of (spawn_loop b loopmax nthr dat)"
  using assms ranges_data_independent [of b loopmax nthr dat' dat] by simp


theorem partition_deterministic_witness:
  "(5 :: 32 word) = 5 \<and> (4 :: 32 word) = 4
   \<and> partitioner (5 :: 32 word) 4 = partitioner 5 4
   \<and> map_sum id ranges_of
        (spawn_loop \<lparr>have_threads = True, threads_api = Some Posix\<rparr> (5 :: 32 word) 4 True) =
      map_sum id ranges_of
        (spawn_loop \<lparr>have_threads = True, threads_api = Some Posix\<rparr> (5 :: 32 word) 4 False)"
  using partition_deterministic [of "5 :: 32 word" 5 4 4
      "\<lparr>have_threads = True, threads_api = Some Posix\<rparr>" True False]
  by simp

text \<open>
  C5. In a build with explicit thread spawning, when the partition gives \<open>n > 1\<close> threads
  the dispatcher spawns exactly \<open>n - 1\<close> threads, for the blocks of \<^verbatim>\<open>thr_num\<close> 0 to
  \<open>n - 2\<close> in this order, then runs the work function itself on the last block, of
  \<^verbatim>\<open>thr_num\<close> \<open>n - 1\<close> and ending at \<^verbatim>\<open>loopmax\<close>, and then waits for the spawned threads.
\<close>

theorem explicit_spawns_all_but_last:
  fixes loopmax nthr bs n :: "'w::len word"
  assumes "have_threads b" and "\<not> using_compiler_threads b"
    and "partitioner loopmax nthr = Inr (bs, n)" and "1 < n"
  shows "\<exists>evs. spawn_loop b loopmax nthr dat = Inr evs
    \<and> evs = Thread_On #
          map (\<lambda>k. Thr_Spawn (of_nat k) (spawn_block (of_nat k) bs dat)) [0..<unat n - 1]
          @ [Proc (final_block (n - 1) bs loopmax dat)]
          @ map (\<lambda>k. Thr_Wait (of_nat k)) [0..<unat n - 1] @ [Thread_Off]
    \<and> length (spawned evs) = unat n - 1
    \<and> map (\<lambda>(mn, mx, t). unat t) (spawned evs) = [0..<unat n - 1]
    \<and> called evs = [((n - 1) * bs, loopmax, n - 1)]
    \<and> ranges_of evs = spawned evs @ called evs"
proof -
  let ?evs = "Thread_On #
          map (\<lambda>k. Thr_Spawn (of_nat k) (spawn_block (of_nat k) bs dat)) [0..<unat n - 1]
          @ [Proc (final_block (n - 1) bs loopmax dat)]
          @ map (\<lambda>k. Thr_Wait (of_nat k)) [0..<unat n - 1] @ [Thread_Off]"
  have run: "spawn_loop b loopmax nthr dat = Inr ?evs"
    using assms(1,2) spawn_loop_threads_explicit [OF assms(3,4), of dat]
    by (simp add: spawn_loop_def)
  have sp: "spawned ?evs =
      map (\<lambda>k. (of_nat k * bs, of_nat k * bs + bs, of_nat k)) [0..<unat n - 1]"
    by (simp add: spawned_append spawned_spawns spawned_waits)
  have ca: "called ?evs = [((n - 1) * bs, loopmax, n - 1)]"
    by (simp add: called_append called_spawns called_waits)
  have ra: "ranges_of ?evs = spawned ?evs @ called ?evs"
    unfolding sp ca by (simp add: ranges_of_append ranges_of_spawns ranges_of_waits)
  have "map (\<lambda>(mn, mx, t). unat t) (spawned ?evs) =
      map (\<lambda>k. unat (of_nat k :: 'w word)) [0..<unat n - 1]"
    unfolding sp by (simp add: comp_def)
  also have "\<dots> = map (\<lambda>k. k) [0..<unat n - 1]"
  proof (rule map_cong [OF refl])
    fix k assume "k \<in> set [0..<unat n - 1]"
    then have "k < unat n" by simp
    then show "unat (of_nat k :: 'w word) = k" by (rule unat_of_nat_less)
  qed
  finally have th: "map (\<lambda>(mn, mx, t). unat t) (spawned ?evs) = [0..<unat n - 1]" by simp
  have len: "length (spawned ?evs) = unat n - 1" unfolding sp by simp
  from run len th ca ra show ?thesis by blast
qed

theorem explicit_spawns_all_but_last_witness:
  "have_threads \<lparr>have_threads = True, threads_api = Some Posix\<rparr>
   \<and> \<not> using_compiler_threads \<lparr>have_threads = True, threads_api = Some Posix\<rparr>
   \<and> partitioner (5 :: 32 word) 4 = Inr (2, 3) \<and> (1 :: 32 word) < 3
   \<and> (\<exists>evs. spawn_loop \<lparr>have_threads = True, threads_api = Some Posix\<rparr>
              (5 :: 32 word) 4 () = Inr evs
         \<and> length (spawned evs) = 2 \<and> called evs = [(4, 5, 2)])"
proof -
  let ?b = "\<lparr>have_threads = True, threads_api = Some Posix\<rparr>"
  have h1: "have_threads ?b" by simp
  have h2: "\<not> using_compiler_threads ?b" by (simp add: using_compiler_threads_def)
  have h3: "partitioner (5 :: 32 word) 4 = Inr (2, 3)" by (simp add: partitioner_def udiv_def)
  have h4: "(1 :: 32 word) < 3" by (simp add: word_less_nat_alt)
  from explicit_spawns_all_but_last [OF h1 h2 h3 h4, of "()"]
  obtain evs where "spawn_loop ?b (5 :: 32 word) 4 () = Inr evs"
    "length (spawned evs) = unat (3 :: 32 word) - 1"
    "called evs = [((3 - 1) * 2, 5 :: 32 word, 3 - 1)]" by blast
  then have "\<exists>evs. spawn_loop ?b (5 :: 32 word) 4 () = Inr evs
         \<and> length (spawned evs) = 2 \<and> called evs = [(4, 5, 2)]" by simp
  with h1 h2 h3 h4 show ?thesis by blast
qed

text \<open>
  C9. On the path of explicit thread spawning, that is when the partition gives \<open>n > 1\<close>
  threads, the block size is the ceiling of \<open>loopmax / nthr\<close> and \<open>n\<close> the ceiling of
  \<open>loopmax / block_size\<close>, computed without wrap-around; every block of index \<open>i < n - 1\<close>,
  written unclamped, is [i * block_size, (i + 1) * block_size) without wrap-around and ends
  at or before \<^verbatim>\<open>loopmax\<close>; the final block starts at (n - 1) * block_size, below
  \<^verbatim>\<open>loopmax\<close>, so it is not empty.
\<close>

theorem explicit_blocks_in_bounds:
  fixes loopmax nthr bs n :: "'w::len word"
  assumes "partitioner loopmax nthr = Inr (bs, n)" and "1 < n"
  shows "unat bs = (unat loopmax + unat nthr - 1) div unat nthr
    \<and> unat n = (unat loopmax + unat bs - 1) div unat bs
    \<and> (\<forall>i. i < n - 1 \<longrightarrow>
          unat (min_d (spawn_block i bs dat)) = unat i * unat bs
        \<and> unat (max_d (spawn_block i bs dat)) = (unat i + 1) * unat bs
        \<and> (unat i + 1) * unat bs \<le> unat loopmax
        \<and> min_d (spawn_block i bs dat) < max_d (spawn_block i bs dat)
        \<and> max_d (spawn_block i bs dat) \<le> loopmax)
    \<and> unat (min_d (final_block (n - 1) bs loopmax dat)) = (unat n - 1) * unat bs
    \<and> min_d (final_block (n - 1) bs loopmax dat) < max_d (final_block (n - 1) bs loopmax dat)
    \<and> max_d (final_block (n - 1) bs loopmax dat) = loopmax"
proof -
  note p = assms(1)
  note q = partitioner_Inr [OF p]
  from assms(2) have n0: "n \<noteq> 0" by auto
  note r = partitioner_Inr_pos [OF p n0]
  have B: "0 < unat bs" using q(3) by (simp add: unat_gt_0)
  have m: "unat (n - 1) = unat n - 1" using n0 by (rule unat_minus_one)
  have last: "n - 1 < n" using n0 by (simp add: word_less_nat_alt m unat_gt_0)
  have inner: "unat (min_d (spawn_block i bs dat)) = unat i * unat bs
        \<and> unat (max_d (spawn_block i bs dat)) = (unat i + 1) * unat bs
        \<and> (unat i + 1) * unat bs \<le> unat loopmax
        \<and> min_d (spawn_block i bs dat) < max_d (spawn_block i bs dat)
        \<and> max_d (spawn_block i bs dat) \<le> loopmax" if i: "i < n - 1" for i
  proof -
    from i last have i': "i < n" by simp
    have "unat (i + 1) = Suc (unat i)" using i by (rule unat_succ_less)
    moreover have "unat i < unat n - 1" using i by (simp add: word_less_nat_alt m)
    ultimately have "i + 1 < n" by (simp add: word_less_nat_alt)
    note b = block_bounds(1,2) [OF p i'] block_bounds(4) [OF p i' this]
    with B show ?thesis
      by (simp add: spawn_block_def word_less_nat_alt word_le_nat_alt)
  qed
  have fin: "unat ((n - 1) * bs) = (unat n - 1) * unat bs"
    "(unat n - 1) * unat bs < unat loopmax"
    using block_bounds(1,3) [OF p last] by (simp_all add: m)
  then have "unat (min_d (final_block (n - 1) bs loopmax dat)) = (unat n - 1) * unat bs
    \<and> min_d (final_block (n - 1) bs loopmax dat) < max_d (final_block (n - 1) bs loopmax dat)
    \<and> max_d (final_block (n - 1) bs loopmax dat) = loopmax"
    by (simp add: final_block_def word_less_nat_alt)
  with q(5) r(2) inner show ?thesis by blast
qed

theorem explicit_blocks_in_bounds_witness:
  "partitioner (5 :: 32 word) 4 = Inr (2, 3) \<and> (1 :: 32 word) < 3 \<and> (1 :: 32 word) < 3 - 1
   \<and> max_d (spawn_block (1 :: 32 word) 2 ()) \<le> 5
   \<and> min_d (final_block (3 - 1 :: 32 word) 2 5 ()) < max_d (final_block (3 - 1 :: 32 word) 2 5 ())"
proof -
  have h1: "partitioner (5 :: 32 word) 4 = Inr (2, 3)" by (simp add: partitioner_def udiv_def)
  have h2: "(1 :: 32 word) < 3" by (simp add: word_less_nat_alt)
  have h3: "(1 :: 32 word) < 3 - 1" by (simp add: word_less_nat_alt)
  note t = explicit_blocks_in_bounds [OF h1 h2, of "()"]
  from t h3 have "max_d (spawn_block (1 :: 32 word) 2 ()) \<le> 5" by blast
  moreover from t have
    "min_d (final_block (3 - 1 :: 32 word) 2 5 ()) < max_d (final_block (3 - 1 :: 32 word) 2 5 ())"
    by blast
  ultimately show ?thesis using h1 h2 h3 by blast
qed

section \<open>The partition where nothing wraps around\<close>

text \<open>
  The blocks laid end to end: \<open>m\<close> blocks of size \<open>B\<close> cover the indices below \<open>m * B\<close>, and
  the last range continues from there to \<^verbatim>\<open>loopmax\<close>.
\<close>

lemma concat_blocks:
  "concat (map (\<lambda>k. [k * B..<(k + 1) * B]) [0..<m]) = [0..<m * B]"
proof (induction m)
  case 0
  show ?case by simp
next
  case (Suc m)
  have "[0..<m * B + B] = [0..<m * B] @ [m * B..<m * B + B]"
    by (rule upt_add_eq_append) simp
  with Suc show ?case by (simp add: add.commute)
qed

lemma ranges_of_threads_closed:
  fixes loopmax nthr bs n :: "'w::len word"
  assumes p: "partitioner loopmax nthr = Inr (bs, n)"
  shows "map_sum id ranges_of (spawn_loop_threads c loopmax nthr dat) =
     Inr (if n \<le> 1 then [(0, loopmax, 0)]
          else map (\<lambda>k. (of_nat k * bs, of_nat k * bs + bs, of_nat k)) [0..<unat n - 1]
               @ [((n - 1) * bs, loopmax, n - 1)])"
proof (cases "n \<le> 1")
  case True
  note q = partitioner_Inr [OF p]
  have "0 < loopmax" "0 < nthr" using q(1,2) by (simp_all add: word_neq_0_conv)
  with True p show ?thesis by (simp add: spawn_loop_threads_def A_def range_of_def)
next
  case False
  then have "1 < n" by simp
  with False show ?thesis
    using ranges_of_compiler [OF p, of dat] ranges_of_explicit [OF p, of dat]
    by (cases c) simp_all
qed

lemma blocks_partition:
  fixes loopmax nthr bs n :: "'w::len word"
  assumes p: "partitioner loopmax nthr = Inr (bs, n)" and n: "1 < n"
  defines "rs \<equiv> map (\<lambda>k. (of_nat k * bs, of_nat k * bs + bs, of_nat k :: 'w word)) [0..<unat n - 1]
               @ [((n - 1) * bs, loopmax, n - 1)]"
  shows "iterations rs = [0..<unat loopmax]"
    and "map (\<lambda>(mn, mx, t). unat t) rs = [0..<length rs]"
    and "\<forall>(mn, mx, t) \<in> set rs. mn < mx \<and> unat mx - unat mn \<le> unat bs"
proof -
  note q = partitioner_Inr [OF p]
  from n have n0: "n \<noteq> 0" by auto
  note r = partitioner_Inr_pos [OF p n0]
  have L: "0 < unat loopmax" and N: "0 < unat nthr" and B: "0 < unat bs"
    using q(1,2,3) by (simp_all add: unat_gt_0)
  note c = ceil_div_facts [OF L N q(5) r(2)]
  have m: "unat (n - 1) = unat n - 1" using n0 by (rule unat_minus_one)
  have last: "n - 1 < n" using n0 by (simp add: word_less_nat_alt m unat_gt_0)
  have blk: "unat (of_nat k * bs :: 'w word) = k * unat bs
      \<and> unat (of_nat k * bs + bs :: 'w word) = (k + 1) * unat bs
      \<and> unat (of_nat k :: 'w word) = k" if "k < unat n - 1" for k
  proof -
    from that have kn: "k < unat n" by linarith
    have uk: "unat (of_nat k :: 'w word) = k" using kn by (rule unat_of_nat_less)
    have i: "(of_nat k :: 'w word) < n" using kn by (rule of_nat_less)
    show ?thesis using block_bounds(1,2) [OF p i] uk by simp
  qed
  have fin: "unat ((n - 1) * bs) = (unat n - 1) * unat bs"
    "(unat n - 1) * unat bs < unat loopmax"
    using block_bounds(1,3) [OF p last] by (simp_all add: m)
  have "map (\<lambda>(mn, mx, t). [unat mn..<unat mx])
          (map (\<lambda>k. (of_nat k * bs, of_nat k * bs + bs, of_nat k :: 'w word)) [0..<unat n - 1]) =
        map (\<lambda>k. [k * unat bs..<(k + 1) * unat bs]) [0..<unat n - 1]"
    unfolding map_map by (rule map_cong [OF refl]) (simp add: blk)
  then have "iterations rs =
      concat (map (\<lambda>k. [k * unat bs..<(k + 1) * unat bs]) [0..<unat n - 1])
        @ [(unat n - 1) * unat bs..<unat loopmax]"
    unfolding rs_def iterations_def
    by (simp only: map_append concat_append list.map concat.simps append_Nil2 prod.case fin(1))
  also have "\<dots> = [0..<(unat n - 1) * unat bs] @ [(unat n - 1) * unat bs..<unat loopmax]"
    by (simp only: concat_blocks)
  also have "\<dots> = [0..<unat loopmax]"
    using fin(2) by (metis le_add_diff_inverse less_imp_le_nat upt_add_eq_append zero_le)
  finally show "iterations rs = [0..<unat loopmax]" .
  have "map (\<lambda>(mn, mx, t). unat t)
          (map (\<lambda>k. (of_nat k * bs, of_nat k * bs + bs, of_nat k :: 'w word)) [0..<unat n - 1]) =
        map (\<lambda>k. k) [0..<unat n - 1]"
    unfolding map_map by (rule map_cong [OF refl]) (simp add: blk)
  then have "map (\<lambda>(mn, mx, t). unat t) rs = [0..<unat n - 1] @ [unat n - 1]"
    unfolding rs_def by (simp only: map_append list.map prod.case m map_ident)
  also have "\<dots> = [0..<length rs]" unfolding rs_def by simp
  finally show "map (\<lambda>(mn, mx, t). unat t) rs = [0..<length rs]" .
  have sz: "unat loopmax - (unat n - 1) * unat bs \<le> unat bs"
  proof -
    have "unat n * unat bs = (unat n - 1) * unat bs + unat bs"
      using c(4) by (metis Suc_diff_1 add.commute mult_Suc less_eq_Suc_le One_nat_def)
    with c(8) show ?thesis by linarith
  qed
  show "\<forall>(mn, mx, t) \<in> set rs. mn < mx \<and> unat mx - unat mn \<le> unat bs"
    unfolding rs_def using B fin sz
    by (auto simp: word_less_nat_alt blk)
qed


lemma map_sum_Inr_obtain:
  assumes "map_sum id f r = Inr y"
  obtains x where "r = Inr x" "f x = y"
  using assms by (cases r) auto

text \<open>
  Where the partition returns, that is where the block size is not zero, the ranges of
  one call partition the loop in every build: read in the order handed out they cover
  the indices 0 to \<open>loopmax - 1\<close> once each and in ascending order, their \<^verbatim>\<open>thr_num\<close> count
  up from 0, and none is empty.
\<close>

theorem spawn_loop_partition:
  fixes loopmax nthr bs n :: "'w::len word"
  assumes p: "partitioner loopmax nthr = Inr (bs, n)"
  shows "\<exists>evs. spawn_loop b loopmax nthr dat = Inr evs
    \<and> iterations (ranges_of evs) = [0..<unat loopmax]
    \<and> map (\<lambda>(mn, mx, t). unat t) (ranges_of evs) = [0..<length (ranges_of evs)]
    \<and> (\<forall>(mn, mx, t) \<in> set (ranges_of evs). mn < mx)"
proof -
  note q = partitioner_Inr [OF p]
  have L: "0 < loopmax" using q(1) by (simp add: word_neq_0_conv)
  let ?one = "[Proc \<lparr>min_d = 0, max_d = loopmax, thr_num = 0, data = dat\<rparr>]"
  have one: "iterations (ranges_of ?one) = [0..<unat loopmax]
    \<and> map (\<lambda>(mn, mx, t). unat t) (ranges_of ?one) = [0..<length (ranges_of ?one)]
    \<and> (\<forall>(mn, mx, t) \<in> set (ranges_of ?one). mn < mx)"
    using L by (simp add: iterations_def range_of_def)
  show ?thesis
  proof (cases "have_threads b \<and> 1 < n")
    case False
    then have "spawn_loop b loopmax nthr dat = Inr ?one"
      using p L q(2)
      by (auto simp: spawn_loop_def spawn_loop_nothreads_def spawn_loop_threads_def A_def
          word_neq_0_conv not_less)
    with one show ?thesis by blast
  next
    case True
    then have n: "1 < n" by simp
    then have "\<not> n \<le> 1" by (simp add: not_le)
    with ranges_of_threads_closed [OF p, of "using_compiler_threads b" dat] True
    have "map_sum id ranges_of (spawn_loop b loopmax nthr dat) =
        Inr (map (\<lambda>k. (of_nat k * bs, of_nat k * bs + bs, of_nat k)) [0..<unat n - 1]
               @ [((n - 1) * bs, loopmax, n - 1)])"
      by (simp add: spawn_loop_def)
    then obtain evs where evs: "spawn_loop b loopmax nthr dat = Inr evs"
      "ranges_of evs = map (\<lambda>k. (of_nat k * bs, of_nat k * bs + bs, of_nat k)) [0..<unat n - 1]
               @ [((n - 1) * bs, loopmax, n - 1)]"
      by (rule map_sum_Inr_obtain)
    note bp = blocks_partition [OF p n, folded evs(2)]
    from bp(3) have "\<forall>(mn, mx, t) \<in> set (ranges_of evs). mn < mx" by fastforce
    with evs(1) bp(1,2) show ?thesis by blast
  qed
qed

text \<open>
  Where the partition returns a number of threads that is not zero, nothing has wrapped
  around: the block size and the number of threads are the two ceilings, the number of
  threads is between 1 and the smaller of \<^verbatim>\<open>loopmax\<close> and \<^verbatim>\<open>nthr\<close>, the threaded dispatcher hands
  out that many ranges and none is longer than the block size.
\<close>

theorem partition_bounds:
  fixes loopmax nthr bs n :: "'w::len word"
  assumes p: "partitioner loopmax nthr = Inr (bs, n)" and n0: "n \<noteq> 0"
  shows "1 \<le> unat n \<and> unat n \<le> min (unat loopmax) (unat nthr)
    \<and> unat bs = (unat loopmax + unat nthr - 1) div unat nthr
    \<and> unat n = (unat loopmax + unat bs - 1) div unat bs
    \<and> (\<exists>evs. spawn_loop_threads c loopmax nthr dat = Inr evs
         \<and> length (ranges_of evs) = unat n
         \<and> (\<forall>(mn, mx, t) \<in> set (ranges_of evs). unat mx - unat mn \<le> unat bs))"
proof -
  note q = partitioner_Inr [OF p]
  note r = partitioner_Inr_pos [OF p n0]
  have L: "0 < unat loopmax" and N: "0 < unat nthr"
    using q(1,2) by (simp_all add: unat_gt_0)
  note cf = ceil_div_facts [OF L N q(5) r(2)]
  obtain evs where evs: "spawn_loop_threads c loopmax nthr dat = Inr evs"
    "ranges_of evs = (if n \<le> 1 then [(0, loopmax, 0)]
          else map (\<lambda>k. (of_nat k * bs, of_nat k * bs + bs, of_nat k)) [0..<unat n - 1]
               @ [((n - 1) * bs, loopmax, n - 1)])"
    using ranges_of_threads_closed [OF p, of c dat] by (rule map_sum_Inr_obtain)
  have "length (ranges_of evs) = unat n
      \<and> (\<forall>(mn, mx, t) \<in> set (ranges_of evs). unat mx - unat mn \<le> unat bs)"
  proof (cases "n \<le> 1")
    case True
    then have "unat n \<le> 1" by (simp add: word_le_nat_alt)
    with cf(4) have "unat n = 1" by linarith
    with cf(8) True evs(2) show ?thesis by simp
  next
    case False
    then have n: "1 < n" by simp
    note bp = blocks_partition [OF p n]
    have "0 < unat n" using n0 by (simp add: unat_gt_0)
    with False evs(2) bp(3) show ?thesis by fastforce
  qed
  with cf(4,5,6) q(5) r(2) evs(1) show ?thesis by auto
qed

section \<open>Wrap-around in the partition\<close>

text \<open>
  C1 fails on the code where the sum \<^verbatim>\<open>loopmax + nthr - 1\<close> wraps around. At 32 bits, for
  \<^verbatim>\<open>loopmax = 4294967295\<close> and \<^verbatim>\<open>nthr = 2\<close> both assertions hold, the sum wraps to 0, the
  block size is 0 and the second division divides by zero: no range is handed out.
\<close>

theorem spawn_loop_max_iterations:
  "(4294967295 :: 32 word) > 0 \<and> (2 :: 32 word) > 0
   \<and> (4294967295 + 2 - 1 :: 32 word) = 0
   \<and> partitioner (4294967295 :: 32 word) 2 = Inl Division_By_Zero
   \<and> spawn_loop_threads c (4294967295 :: 32 word) 2 dat = Inl Division_By_Zero"
  by (simp add: spawn_loop_threads_def A_def partitioner_def udiv_def word_less_nat_alt)

text \<open>
  C2 fails on the code where the sum \<^verbatim>\<open>loopmax + block_size - 1\<close> wraps around. At 32 bits,
  for \<^verbatim>\<open>loopmax = 4294967294\<close> and \<^verbatim>\<open>nthr = 2\<close> the block size is 2147483647, the number of
  threads comes out as 0, and the dispatcher runs the whole loop as one range of
  4294967294 iterations, more than the ceiling 2147483647 of \<open>loopmax / nthr\<close>.
\<close>

theorem partitioner_zero_threads:
  "(4294967294 :: 32 word) > 0 \<and> (2 :: 32 word) > 0
   \<and> partitioner (4294967294 :: 32 word) 2 = Inr (2147483647, 0)
   \<and> spawn_loop_threads c (4294967294 :: 32 word) 2 dat =
        Inr [Proc \<lparr>min_d = 0, max_d = 4294967294, thr_num = 0, data = dat\<rparr>]
   \<and> (unat (4294967294 :: 32 word) + unat (2 :: 32 word) - 1) div unat (2 :: 32 word)
        = 2147483647
   \<and> unat (4294967294 :: 32 word) - unat (0 :: 32 word) > 2147483647"
  by (simp add: spawn_loop_threads_def A_def partitioner_def udiv_def word_less_nat_alt)

text \<open>
  The same failure at every width of at least two bits: the largest \<^verbatim>\<open>loopmax\<close> with
  two threads divides by zero.
\<close>

lemma spawn_loop_all_ones:
  fixes c :: bool
  assumes "2 \<le> LENGTH('w::len)"
  shows "spawn_loop_threads c (- 1 :: 'w word) 2 dat = Inl Division_By_Zero"
proof -
  have two: "(2 :: 'w word) \<noteq> 0" using assms by auto
  then have a2: "A (0 < (2 :: 'w word)) = Inr ()"
    unfolding A_def word_neq_0_conv by (simp only: if_True)
  have "(- 1 :: 'w word) \<noteq> 0" by simp
  then have a1: "A (0 < (- 1 :: 'w word)) = Inr ()"
    unfolding A_def word_neq_0_conv by (simp only: if_True)
  have "(- 1 + 2 - 1 :: 'w word) = 0" by simp
  then have "udiv (- 1 + 2 - 1 :: 'w word) 2 = Inr 0"
    using two unfolding udiv_def by (simp only: if_False div_0)
  then have "partitioner (- 1 :: 'w word) 2 = Inl Division_By_Zero"
    by (simp add: partitioner_def) (simp add: udiv_def)
  then show ?thesis
    unfolding spawn_loop_threads_def a1 a2 by simp
qed

end
